theory Spec2Isabelle
  imports Main
begin

section \<open>The toast notification store (client/hooks/use-toast.js)\<close>

text \<open>
  The store consists of a reducer over four actions, a removal scheduler built on a
  map from toast ids to timeout handles, a list of listeners and the public functions
  \<open>toast\<close> and \<open>useToast\<close>. The module-level variables of the source
  (\<open>count\<close>, \<open>toastTimeouts\<close>, \<open>listeners\<close>, \<open>memoryState\<close>) are the fields of one
  record that every function takes and returns.
\<close>

subsection \<open>Data\<close>

text \<open>
  Property values of a toast object. The store never inspects a payload, so titles,
  descriptions and other display properties are opaque references. The one function
  value the store itself creates is the \<open>onOpenChange\<close> closure of \<open>toast\<close>, which
  captures the id of its toast.
\<close>

datatype jsval =
    Undefined
  | JBool bool
  | JStr string
  | Opaque nat
  | OnOpenChange string

type_synonym props = "string \<rightharpoonup> jsval"

text \<open>
  A toast is an object with a string \<open>id\<close> and further properties (\<open>title\<close>,
  \<open>description\<close>, \<open>action\<close>, \<open>open\<close>, \<open>onOpenChange\<close>, ...), kept as a map from
  property names to values so that object spread is map override.
\<close>

record ToasterToast =
  id' :: string
  props :: props

text \<open>The payload of an update: every property is optional, the id included.\<close>

record partial_toast =
  partial_id :: "string option"
  partial_props :: props

record state =
  toasts :: "ToasterToast list"

text \<open>An omitted \<open>toastId\<close> is \<open>undefined\<close> in the source and \<open>None\<close> here.\<close>

datatype action =
    ADD_TOAST ToasterToast
  | UPDATE_TOAST partial_toast
  | DISMISS_TOAST "string option"
  | REMOVE_TOAST "string option"

text \<open>
  The module state. \<open>timers\<close> and \<open>next_timer\<close> stand for the host's timer facility:
  the pending \<open>setTimeout\<close> callbacks, each with its handle and the toast id its
  closure captured. A listener is a \<open>setState\<close> function, known by its identity;
  \<open>calls\<close> records every listener invocation with the state passed, in order.
\<close>

record store =
  count :: nat
  toastTimeouts :: "string \<rightharpoonup> nat"
  timers :: "(nat \<times> string) list"
  next_timer :: nat
  listeners :: "nat list"
  memoryState :: state
  calls :: "(nat \<times> state) list"

definition TOAST_LIMIT :: nat where
  "TOAST_LIMIT = 1"

definition MAX_SAFE_INTEGER :: nat where
  "MAX_SAFE_INTEGER = 2 ^ 53 - 1"

definition init_store :: store where
  "init_store = \<lparr>count = 0, toastTimeouts = Map.empty, timers = [], next_timer = 0,
     listeners = [], memoryState = \<lparr>toasts = []\<rparr>, calls = []\<rparr>"

subsection \<open>Identifiers\<close>

definition digit :: "nat \<Rightarrow> char" where
  "digit n = ''0123456789'' ! (n mod 10)"

text \<open>\<open>Number.prototype.toString\<close> on a non-negative safe integer: its decimal digits.\<close>

fun toString :: "nat \<Rightarrow> string" where
  "toString n = (if n < 10 then [digit n] else toString (n div 10) @ [digit n])"

declare toString.simps [simp del]

definition genId :: "store \<Rightarrow> string \<times> store" where
  "genId s = (let c = (count s + 1) mod MAX_SAFE_INTEGER
              in (toString c, s\<lparr>count := c\<rparr>))"

subsection \<open>The removal scheduler\<close>

definition setTimeout :: "string \<Rightarrow> store \<Rightarrow> nat \<times> store" where
  "setTimeout toastId s =
     (next_timer s,
      s\<lparr>timers := timers s @ [(next_timer s, toastId)], next_timer := Suc (next_timer s)\<rparr>)"

definition addToRemoveQueue :: "string \<Rightarrow> store \<Rightarrow> store" where
  "addToRemoveQueue toastId s =
     (if toastTimeouts s toastId \<noteq> None then s
      else (let (timeout, s') = setTimeout toastId s
            in s'\<lparr>toastTimeouts := (toastTimeouts s')(toastId \<mapsto> timeout)\<rparr>))"

subsection \<open>The reducer\<close>

text \<open>The truth value of \<open>toastId\<close> in \<open>if (toastId)\<close>: \<open>undefined\<close> and the empty string are falsy.\<close>

definition truthy :: "string option \<Rightarrow> bool" where
  "truthy toastId = (case toastId of None \<Rightarrow> False | Some x \<Rightarrow> x \<noteq> [])"

text \<open>The object \<open>{ ...t, ...action.toast }\<close>: the properties of the payload win.\<close>

definition merge :: "ToasterToast \<Rightarrow> partial_toast \<Rightarrow> ToasterToast" where
  "merge t p = \<lparr>id' = (case partial_id p of None \<Rightarrow> id' t | Some x \<Rightarrow> x),
                props = props t ++ partial_props p\<rparr>"

text \<open>
  Modelled from the spec: the value that the DISMISS branch assigns to \<open>open\<close> is not
  legible in the source (line 101 reads \<open>open,\<close>); the spec says DISMISS sets
  \<open>open = false\<close>.
\<close>

definition dismissed :: "ToasterToast \<Rightarrow> ToasterToast" where
  "dismissed t = t\<lparr>props := (props t)(''open'' \<mapsto> JBool False)\<rparr>"

text \<open>
  Modelled from the spec: the alternative of the conditional inside \<open>map\<close> is not
  legible in the source (lines 78 and 103 end after the first branch); the spec says
  that the other toasts are unchanged, so the alternative is the toast itself. The rest
  is the source: the reducer returns the new state, and its DISMISS branch first
  schedules removals, which changes the store.
\<close>

fun reducer :: "state \<Rightarrow> action \<Rightarrow> store \<Rightarrow> state \<times> store" where
  "reducer state (ADD_TOAST t) s =
     (state\<lparr>toasts := take TOAST_LIMIT (t # toasts state)\<rparr>, s)"
| "reducer state (UPDATE_TOAST p) s =
     (state\<lparr>toasts := map (\<lambda>t. if Some (id' t) = partial_id p then merge t p else t)
                          (toasts state)\<rparr>, s)"
| "reducer state (DISMISS_TOAST toastId) s =
     (let s' = (if truthy toastId then addToRemoveQueue (the toastId) s
                else fold (\<lambda>t. addToRemoveQueue (id' t)) (toasts state) s)
      in (state\<lparr>toasts := map (\<lambda>t. if Some (id' t) = toastId \<or> toastId = None
                                     then dismissed t else t) (toasts state)\<rparr>, s'))"
| "reducer state (REMOVE_TOAST toastId) s =
     (if toastId = None then (state\<lparr>toasts := []\<rparr>, s)
      else (state\<lparr>toasts := filter (\<lambda>t. Some (id' t) = toastId) (toasts state)\<rparr>, s))"

subsection \<open>Dispatch and listeners\<close>

definition dispatch :: "action \<Rightarrow> store \<Rightarrow> store" where
  "dispatch a s =
     (let (st, s1) = reducer (memoryState s) a s;
          s2 = s1\<lparr>memoryState := st\<rparr>
      in s2\<lparr>calls := calls s2 @ map (\<lambda>listener. (listener, memoryState s2)) (listeners s2)\<rparr>)"

text \<open>
  Modelled from the spec: the action type that the callback given to \<open>setTimeout\<close>
  dispatches is not legible in the source (line 60 reads \<open>type,\<close>); the spec says
  the timer dispatches REMOVE for its id. \<open>fire h\<close> is that callback, run by the host
  when the timer with handle \<open>h\<close> fires: it deletes the id from \<open>toastTimeouts\<close> and
  dispatches.
\<close>

definition fire :: "nat \<Rightarrow> store \<Rightarrow> store" where
  "fire h s =
     (case find (\<lambda>p. fst p = h) (timers s) of
        None \<Rightarrow> s
      | Some (h', toastId) \<Rightarrow>
          dispatch (REMOVE_TOAST (Some toastId))
            (s\<lparr>timers := remove1 (h', toastId) (timers s),
               toastTimeouts := (toastTimeouts s)(toastId := None)\<rparr>))"

subsection \<open>The public functions\<close>

text \<open>
  Modelled from the spec: the action type that the \<open>update\<close> closure dispatches is not
  legible in the source (line 139 reads \<open>type,\<close>); the spec says it is UPDATE. The
  closure is a function of the id it captured.
\<close>

definition toast_update :: "string \<Rightarrow> props \<Rightarrow> store \<Rightarrow> store" where
  "toast_update i p s = dispatch (UPDATE_TOAST \<lparr>partial_id = Some i, partial_props = p\<rparr>) s"

text \<open>
  Modelled from the spec: the action type that the \<open>dismiss\<close> closure dispatches is not
  legible in the source (line 142 reads \<open>type\<close>); the spec says it is DISMISS.
\<close>

definition toast_dismiss :: "string \<Rightarrow> store \<Rightarrow> store" where
  "toast_dismiss i s = dispatch (DISMISS_TOAST (Some i)) s"

text \<open>The \<open>onOpenChange\<close> closure that \<open>toast\<close> stores in the toast it creates.\<close>

definition onOpenChange :: "string \<Rightarrow> bool \<Rightarrow> store \<Rightarrow> store" where
  "onOpenChange i open s = (if open then toast_dismiss i s else s)"

text \<open>
  Modelled from the spec: the action type that \<open>toast\<close> dispatches and the value it gives
  to \<open>open\<close> are not legible in the source (lines 145 and 149 read \<open>type,\<close> and
  \<open>open,\<close>); the spec says it dispatches ADD of a toast with \<open>open = true\<close>. The
  function returns the id; the closures it returns with it are \<open>toast_update\<close> and
  \<open>toast_dismiss\<close> at that id.
\<close>

definition toast :: "props \<Rightarrow> store \<Rightarrow> string \<times> store" where
  "toast p s =
     (let (i, s1) = genId s
      in (i, dispatch (ADD_TOAST \<lparr>id' = i,
                props = p(''open'' \<mapsto> JBool True, ''onOpenChange'' \<mapsto> OnOpenChange i)\<rparr>) s1))"

text \<open>Calling a property value as the \<open>onOpenChange\<close> callback of a toast.\<close>

fun call_onOpenChange :: "jsval \<Rightarrow> bool \<Rightarrow> store \<Rightarrow> store option" where
  "call_onOpenChange (OnOpenChange i) open s = Some (onOpenChange i open s)"
| "call_onOpenChange _ open s = None"

text \<open>
  \<open>useToast\<close>: the effect pushes the component's \<open>setState\<close>, its cleanup removes the
  first occurrence found by \<open>indexOf\<close>.
\<close>

definition useToast_effect :: "nat \<Rightarrow> store \<Rightarrow> store" where
  "useToast_effect setState s = s\<lparr>listeners := listeners s @ [setState]\<rparr>"

definition useToast_cleanup :: "nat \<Rightarrow> store \<Rightarrow> store" where
  "useToast_cleanup setState s =
     (if setState \<in> set (listeners s)
      then s\<lparr>listeners := remove1 setState (listeners s)\<rparr> else s)"

text \<open>
  Modelled from the spec: the action type that the \<open>dismiss\<close> function of \<open>useToast\<close>
  dispatches is not legible in the source (line 179 reads \<open>type,\<close>); the spec says it
  is DISMISS, with the optional id it is given.
\<close>

definition useToast_dismiss :: "string option \<Rightarrow> store \<Rightarrow> store" where
  "useToast_dismiss toastId s = dispatch (DISMISS_TOAST toastId) s"

subsection \<open>Runs of the store\<close>

text \<open>Applying a list of actions through the reducer, one after the other.\<close>

fun reduce_all :: "state \<Rightarrow> action list \<Rightarrow> store \<Rightarrow> state \<times> store" where
  "reduce_all st [] s = (st, s)"
| "reduce_all st (a # as) s = (case reducer st a s of (st', s') \<Rightarrow> reduce_all st' as s')"

definition dispatch_all :: "action list \<Rightarrow> store \<Rightarrow> store" where
  "dispatch_all as s = fold dispatch as s"

text \<open>
  What can happen to the store from outside: a call of one of the public functions or
  closures, the host firing a timer, React running the effect of \<open>useToast\<close> or its
  cleanup.
\<close>

datatype event =
    CallToast props
  | CallUpdate string props
  | CallDismiss "string option"
  | CallOnOpenChange string bool
  | TimerFires nat
  | EffectRuns nat
  | CleanupRuns nat

fun step :: "event \<Rightarrow> store \<Rightarrow> store" where
  "step (CallToast p) s = snd (toast p s)"
| "step (CallUpdate i p) s = toast_update i p s"
| "step (CallDismiss toastId) s = useToast_dismiss toastId s"
| "step (CallOnOpenChange i open) s = onOpenChange i open s"
| "step (TimerFires h) s = fire h s"
| "step (EffectRuns l) s = useToast_effect l s"
| "step (CleanupRuns l) s = useToast_cleanup l s"

definition run :: "event list \<Rightarrow> store \<Rightarrow> store" where
  "run es s = fold step es s"

text \<open>
  React's discipline for the effect of \<open>useToast\<close>: before it runs the effect of a
  component again, it runs the cleanup that the previous run returned. \<open>lifecycle m es\<close>
  says that the events \<open>es\<close> respect it, where \<open>m\<close> holds the listeners whose effect
  has run and whose cleanup has not; \<open>subscribed m es\<close> is that set after \<open>es\<close>. A
  cleanup may run at any time.
\<close>

fun subscribed :: "nat set \<Rightarrow> event list \<Rightarrow> nat set" where
  "subscribed m [] = m"
| "subscribed m (EffectRuns l # es) = subscribed (insert l m) es"
| "subscribed m (CleanupRuns l # es) = subscribed (m - {l}) es"
| "subscribed m (e # es) = subscribed m es"

fun lifecycle :: "nat set \<Rightarrow> event list \<Rightarrow> bool" where
  "lifecycle m [] = True"
| "lifecycle m (EffectRuns l # es) = (l \<notin> m \<and> lifecycle (insert l m) es)"
| "lifecycle m (CleanupRuns l # es) = lifecycle (m - {l}) es"
| "lifecycle m (e # es) = lifecycle m es"

subsection \<open>Predicates used in the statements\<close>

text \<open>The number of pending host timers whose callback removes the toast \<open>i\<close>.\<close>

definition timers_for :: "string \<Rightarrow> store \<Rightarrow> nat" where
  "timers_for i s = length (filter (\<lambda>p. snd p = i) (timers s))"

text \<open>
  The scheduler is consistent when every id tracked in \<open>toastTimeouts\<close> has exactly one
  pending timer and every other id has none.
\<close>

definition sched_ok :: "store \<Rightarrow> bool" where
  "sched_ok s = (\<forall>i. timers_for i s = (if toastTimeouts s i = None then 0 else 1))"

definition is_open :: "ToasterToast \<Rightarrow> bool" where
  "is_open t = (props t ''open'' = Some (JBool True))"

text \<open>No toast with id \<open>X\<close> in the state is open.\<close>

definition closed :: "string \<Rightarrow> state \<Rightarrow> bool" where
  "closed X st = (\<forall>t \<in> set (toasts st). id' t = X \<longrightarrow> \<not> is_open t)"

text \<open>The actions whose payload itself carries \<open>open = true\<close> for the id \<open>X\<close>.\<close>

fun reopens :: "string \<Rightarrow> action \<Rightarrow> bool" where
  "reopens X (ADD_TOAST t) = (id' t = X \<and> is_open t)"
| "reopens X (UPDATE_TOAST p) =
     (partial_id p = Some X \<and> partial_props p ''open'' = Some (JBool True))"
| "reopens X (DISMISS_TOAST toastId) = False"
| "reopens X (REMOVE_TOAST toastId) = False"

text \<open>How often the listener \<open>l\<close> has been invoked so far.\<close>

definition invocations :: "nat \<Rightarrow> store \<Rightarrow> nat" where
  "invocations l s = length (filter (\<lambda>c. fst c = l) (calls s))"

section \<open>Properties\<close>

subsection \<open>The scheduler\<close>

lemma addToRemoveQueue_frame:
  "count (addToRemoveQueue i s) = count s"
  "listeners (addToRemoveQueue i s) = listeners s"
  "memoryState (addToRemoveQueue i s) = memoryState s"
  "calls (addToRemoveQueue i s) = calls s"
  by (simp_all add: addToRemoveQueue_def setTimeout_def)

lemma addToRemoveQueue_tracked:
  "(toastTimeouts (addToRemoveQueue i s) j = None) = (j \<noteq> i \<and> toastTimeouts s j = None)"
  by (simp add: addToRemoveQueue_def setTimeout_def)

lemma addToRemoveQueue_other:
  "j \<noteq> i \<Longrightarrow> toastTimeouts (addToRemoveQueue i s) j = toastTimeouts s j"
  by (simp add: addToRemoveQueue_def setTimeout_def)

lemma addToRemoveQueue_pending:
  "toastTimeouts s i \<noteq> None \<Longrightarrow> addToRemoveQueue i s = s"
  by (simp add: addToRemoveQueue_def)

lemma addToRemoveQueue_new:
  "toastTimeouts s i = None \<Longrightarrow>
     timers (addToRemoveQueue i s) = timers s @ [(next_timer s, i)]
     \<and> toastTimeouts (addToRemoveQueue i s) = (toastTimeouts s)(i \<mapsto> next_timer s)"
  by (simp add: addToRemoveQueue_def setTimeout_def)

lemma timers_for_addToRemoveQueue:
  "timers_for j (addToRemoveQueue i s) =
     (if j = i \<and> toastTimeouts s i = None then Suc (timers_for j s) else timers_for j s)"
  by (simp add: addToRemoveQueue_def setTimeout_def timers_for_def)

lemma sched_ok_addToRemoveQueue:
  assumes "sched_ok s"
  shows "sched_ok (addToRemoveQueue i s)"
  unfolding sched_ok_def
proof
  fix j
  from assms have j: "timers_for j s = (if toastTimeouts s j = None then 0 else 1)"
    by (simp add: sched_ok_def)
  show "timers_for j (addToRemoveQueue i s) =
          (if toastTimeouts (addToRemoveQueue i s) j = None then 0 else 1)"
  proof (cases "j = i")
    case True
    then show ?thesis
      using j addToRemoveQueue_tracked [of i s i]
      by (simp add: timers_for_addToRemoveQueue)
  next
    case False
    then show ?thesis
      using j by (simp add: timers_for_addToRemoveQueue addToRemoveQueue_other)
  qed
qed

lemma fold_addToRemoveQueue_tracked:
  "(toastTimeouts (fold (\<lambda>t. addToRemoveQueue (id' t)) ts s) j = None)
     = (j \<notin> id' ` set ts \<and> toastTimeouts s j = None)"
  by (induction ts arbitrary: s) (auto simp: addToRemoveQueue_tracked)

lemma fold_addToRemoveQueue_other:
  "j \<notin> id' ` set ts \<Longrightarrow>
     toastTimeouts (fold (\<lambda>t. addToRemoveQueue (id' t)) ts s) j = toastTimeouts s j"
  by (induction ts arbitrary: s) (auto simp: addToRemoveQueue_other)

lemma fold_addToRemoveQueue_frame:
  "count (fold (\<lambda>t. addToRemoveQueue (id' t)) ts s) = count s"
  "listeners (fold (\<lambda>t. addToRemoveQueue (id' t)) ts s) = listeners s"
  "memoryState (fold (\<lambda>t. addToRemoveQueue (id' t)) ts s) = memoryState s"
  "calls (fold (\<lambda>t. addToRemoveQueue (id' t)) ts s) = calls s"
  by (induction ts arbitrary: s) (simp_all add: addToRemoveQueue_frame)

lemma sched_ok_fold_addToRemoveQueue:
  "sched_ok s \<Longrightarrow> sched_ok (fold (\<lambda>t. addToRemoveQueue (id' t)) ts s)"
  by (induction ts arbitrary: s) (simp_all add: sched_ok_addToRemoveQueue)

lemma sched_ok_tracked:
  "sched_ok s \<Longrightarrow> toastTimeouts s i \<noteq> None \<Longrightarrow> timers_for i s = 1"
  by (simp add: sched_ok_def)

lemma toString_nonempty: "toString n \<noteq> []"
  by (subst toString.simps) simp

lemma find_fst_in_set:
  "find (\<lambda>p. fst p = h) xs = Some q \<Longrightarrow> q \<in> set xs \<and> fst q = h"
  by (induction xs) (auto split: if_splits)

lemma length_filter_remove1_hit:
  "x \<in> set xs \<Longrightarrow> P x \<Longrightarrow> Suc (length (filter P (remove1 x xs))) = length (filter P xs)"
  by (induction xs) auto

lemma length_filter_remove1_miss:
  "\<not> P x \<Longrightarrow> length (filter P (remove1 x xs)) = length (filter P xs)"
  by (induction xs) auto

subsection \<open>The reducer and dispatch\<close>

lemma reducer_frame:
  "count (snd (reducer st a s)) = count s"
  "listeners (snd (reducer st a s)) = listeners s"
  "memoryState (snd (reducer st a s)) = memoryState s"
  "calls (snd (reducer st a s)) = calls s"
  by (cases a; simp add: Let_def addToRemoveQueue_frame fold_addToRemoveQueue_frame)+

lemma sched_ok_reducer:
  "sched_ok s \<Longrightarrow> sched_ok (snd (reducer st a s))"
  by (cases a) (simp_all add: Let_def sched_ok_addToRemoveQueue sched_ok_fold_addToRemoveQueue)

lemma sched_ok_cong:
  "timers s' = timers s \<Longrightarrow> toastTimeouts s' = toastTimeouts s \<Longrightarrow> sched_ok s' = sched_ok s"
  by (simp add: sched_ok_def timers_for_def)

lemma dispatch_sched:
  "timers (dispatch a s) = timers (snd (reducer (memoryState s) a s))"
  "toastTimeouts (dispatch a s) = toastTimeouts (snd (reducer (memoryState s) a s))"
  by (simp_all add: dispatch_def Let_def split: prod.splits)

lemma sched_ok_dispatch:
  "sched_ok s \<Longrightarrow> sched_ok (dispatch a s)"
  using sched_ok_reducer [of s "memoryState s" a]
  by (simp add: sched_ok_cong [OF dispatch_sched])

lemma reduce_all_snoc:
  "reduce_all st (as @ [a]) s = (case reduce_all st as s of (st', s') \<Rightarrow> reducer st' a s')"
  by (induction as arbitrary: st s) (auto split: prod.splits)

lemma dispatch_memoryState: "memoryState (dispatch a s) = fst (reducer (memoryState s) a s)"
  by (simp add: dispatch_def Let_def case_prod_beta)

lemma dispatch_listeners: "listeners (dispatch a s) = listeners s"
  by (simp add: dispatch_def Let_def case_prod_beta reducer_frame)

lemma dispatch_calls:
  "calls (dispatch a s) =
     calls s @ map (\<lambda>l. (l, fst (reducer (memoryState s) a s))) (listeners s)"
  by (simp add: dispatch_def Let_def case_prod_beta reducer_frame)

lemma length_filter_eq: "length (filter (\<lambda>x. x = l) ls) = count_list ls l"
  by (induction ls) auto

lemma invocations_dispatch:
  "invocations l (dispatch a s) = invocations l s + count_list (listeners s) l"
  by (simp add: invocations_def dispatch_calls filter_map comp_def length_filter_eq)

lemma dispatch_all_listeners: "listeners (dispatch_all as s) = listeners s"
  unfolding dispatch_all_def
  by (induction as arbitrary: s) (simp_all add: dispatch_listeners)

lemma invocations_dispatch_all:
  "l \<notin> set (listeners s) \<Longrightarrow> invocations l (dispatch_all as s) = invocations l s"
  unfolding dispatch_all_def
  by (induction as arbitrary: s) (simp_all add: dispatch_listeners invocations_dispatch)

lemma remove1_last_occurrence:
  "count_list xs x \<le> 1 \<Longrightarrow> x \<notin> set (remove1 x xs)"
  by (induction xs) (auto simp: count_list_0_iff)

lemma cleanup_unregisters:
  "count_list (listeners s) l \<le> 1 \<Longrightarrow> l \<notin> set (listeners (useToast_cleanup l s))"
  by (simp add: useToast_cleanup_def remove1_last_occurrence)

lemma cleanup_invocations: "invocations l (useToast_cleanup l' s) = invocations l s"
  by (simp add: useToast_cleanup_def invocations_def)

subsection \<open>The scheduler stays consistent\<close>

lemma sched_ok_fire:
  assumes "sched_ok s"
  shows "sched_ok (fire h s)"
proof (cases "find (\<lambda>p. fst p = h) (timers s)")
  case None
  then show ?thesis using assms by (simp add: fire_def)
next
  case (Some q)
  obtain h' i where q: "q = (h', i)" by (cases q)
  from Some have mem: "(h', i) \<in> set (timers s)"
    using find_fst_in_set [of h "timers s" q] by (auto simp: q)
  define s1 where "s1 = s\<lparr>timers := remove1 (h', i) (timers s),
               toastTimeouts := (toastTimeouts s)(i := None)\<rparr>"
  have pos: "0 < timers_for i s"
    using mem by (force simp: timers_for_def filter_empty_conv)
  have one: "timers_for i s = 1"
    using assms pos by (simp add: sched_ok_def split: if_splits)
  have "sched_ok s1"
    unfolding sched_ok_def
  proof
    fix j
    from assms have j: "timers_for j s = (if toastTimeouts s j = None then 0 else 1)"
      by (simp add: sched_ok_def)
    show "timers_for j s1 = (if toastTimeouts s1 j = None then 0 else 1)"
    proof (cases "j = i")
      case True
      have "Suc (timers_for i s1) = timers_for i s"
        using mem length_filter_remove1_hit [of "(h', i)" "timers s" "\<lambda>p. snd p = i"]
        by (simp add: s1_def timers_for_def)
      with one True show ?thesis by (simp add: s1_def)
    next
      case False
      then show ?thesis
        using j by (simp add: s1_def timers_for_def length_filter_remove1_miss)
    qed
  qed
  then have "sched_ok (dispatch (REMOVE_TOAST (Some i)) s1)"
    by (rule sched_ok_dispatch)
  then show ?thesis
    using Some by (simp add: fire_def q s1_def)
qed

lemma sched_ok_step:
  "sched_ok s \<Longrightarrow> sched_ok (step e s)"
proof (cases e)
  case (CallToast p)
  assume ok: "sched_ok s"
  have "sched_ok (s\<lparr>count := c\<rparr>)" for c
    using ok by (simp add: sched_ok_def timers_for_def)
  then show ?thesis
    by (simp add: CallToast toast_def genId_def Let_def sched_ok_dispatch)
next
  case (EffectRuns l)
  assume "sched_ok s"
  then show ?thesis
    by (simp add: EffectRuns useToast_effect_def sched_ok_def timers_for_def)
next
  case (CleanupRuns l)
  assume "sched_ok s"
  then show ?thesis
    by (simp add: CleanupRuns useToast_cleanup_def sched_ok_def timers_for_def)
qed (simp_all add: toast_update_def useToast_dismiss_def onOpenChange_def toast_dismiss_def
       sched_ok_dispatch sched_ok_fire)

lemma sched_ok_init: "sched_ok init_store"
  by (simp add: sched_ok_def init_store_def timers_for_def)

lemma sched_ok_run_from:
  "sched_ok s \<Longrightarrow> sched_ok (run es s)"
  unfolding run_def by (induction es arbitrary: s) (simp_all add: sched_ok_step)

lemma sched_ok_run: "sched_ok (run es init_store)"
  by (simp add: sched_ok_run_from sched_ok_init)

lemma sched_ok_le: "sched_ok s \<Longrightarrow> timers_for i s \<le> 1"
  by (simp add: sched_ok_def)

lemma dismiss_sched:
  assumes "i \<noteq> []"
  shows "timers (toast_dismiss i s) = timers (addToRemoveQueue i s)"
    and "toastTimeouts (toast_dismiss i s) = toastTimeouts (addToRemoveQueue i s)"
  using assms by (simp_all add: toast_dismiss_def dispatch_sched truthy_def)

lemma toast_id_nonempty: "fst (toast p s) \<noteq> []"
  by (simp add: toast_def genId_def Let_def toString_nonempty)

subsection \<open>Listeners along a run\<close>

lemma fire_frame:
  "listeners (fire h s) = listeners s"
  "invocations l (fire h s) = invocations l s + (if find (\<lambda>p. fst p = h) (timers s) = None then 0 else count_list (listeners s) l)"
  by (auto simp: fire_def dispatch_listeners invocations_dispatch split: option.splits)
     (simp add: invocations_def)

lemma step_listeners:
  "e \<noteq> EffectRuns l \<Longrightarrow> l \<notin> set (listeners s) \<Longrightarrow> l \<notin> set (listeners (step e s))"
  by (cases e)
     (auto simp: toast_def genId_def Let_def toast_update_def useToast_dismiss_def
        onOpenChange_def toast_dismiss_def dispatch_listeners fire_frame useToast_effect_def
        useToast_cleanup_def dest: notin_set_remove1)

lemma invocations_count_upd: "invocations l (s\<lparr>count := c\<rparr>) = invocations l s"
  by (simp add: invocations_def)

lemma step_invocations:
  "l \<notin> set (listeners s) \<Longrightarrow> invocations l (step e s) = invocations l s"
  by (cases e)
     (simp_all add: toast_def genId_def Let_def toast_update_def useToast_dismiss_def
        onOpenChange_def toast_dismiss_def invocations_dispatch fire_frame
        invocations_count_upd cleanup_invocations,
      simp add: useToast_effect_def invocations_def)

lemma invocations_run:
  "EffectRuns l \<notin> set es \<Longrightarrow> l \<notin> set (listeners s) \<Longrightarrow> invocations l (run es s) = invocations l s"
  unfolding run_def
  by (induction es arbitrary: s) (auto simp: step_listeners step_invocations)

text \<open>
  Along events that respect the discipline of the effect, the registry holds no
  listener twice, and it holds exactly the listeners that are subscribed.
\<close>

lemma effect_listeners: "listeners (useToast_effect l s) = listeners s @ [l]"
  by (simp add: useToast_effect_def)

lemma cleanup_listeners: "listeners (useToast_cleanup l s) = remove1 l (listeners s)"
  by (simp add: useToast_cleanup_def remove1_idem)

lemma step_listeners_other:
  "(\<forall>l. e \<noteq> EffectRuns l \<and> e \<noteq> CleanupRuns l) \<Longrightarrow> listeners (step e s) = listeners s"
  by (cases e)
     (simp_all add: toast_def genId_def Let_def toast_update_def useToast_dismiss_def
        onOpenChange_def toast_dismiss_def dispatch_listeners fire_frame)

lemma lifecycle_other:
  "(\<forall>l. e \<noteq> EffectRuns l \<and> e \<noteq> CleanupRuns l) \<Longrightarrow>
     lifecycle m (e # es) = lifecycle m es \<and> subscribed m (e # es) = subscribed m es"
  by (cases e) simp_all

lemma run_Cons: "run (e # es) s = run es (step e s)"
  by (simp add: run_def)

lemma lifecycle_run:
  "lifecycle m es \<Longrightarrow> distinct (listeners s) \<Longrightarrow> set (listeners s) = m \<Longrightarrow>
     distinct (listeners (run es s)) \<and> set (listeners (run es s)) = subscribed m es"
proof (induction es arbitrary: m s)
  case Nil
  then show ?case by (simp add: run_def)
next
  case (Cons e es)
  consider (effect) l where "e = EffectRuns l" | (cleanup) l where "e = CleanupRuns l"
    | (other) "\<forall>l. e \<noteq> EffectRuns l \<and> e \<noteq> CleanupRuns l"
    by (cases e) auto
  then show ?case
  proof cases
    case effect
    with Cons.prems have "lifecycle (insert l m) es" "distinct (listeners (step e s))"
      "set (listeners (step e s)) = insert l m"
      by (auto simp: effect_listeners)
    from Cons.IH [OF this] show ?thesis by (simp add: run_Cons effect)
  next
    case cleanup
    with Cons.prems have "lifecycle (m - {l}) es" "distinct (listeners (step e s))"
      "set (listeners (step e s)) = m - {l}"
      by (auto simp: cleanup_listeners)
    from Cons.IH [OF this] show ?thesis by (simp add: run_Cons cleanup)
  next
    case other
    with Cons.prems have "lifecycle m es" "distinct (listeners (step e s))"
      "set (listeners (step e s)) = m"
      by (simp_all add: step_listeners_other lifecycle_other)
    from Cons.IH [OF this] show ?thesis
      using lifecycle_other [OF other, of m es] by (simp add: run_Cons)
  qed
qed

lemma lifecycle_reachable:
  "lifecycle {} es \<Longrightarrow>
     distinct (listeners (run es init_store)) \<and> set (listeners (run es init_store)) = subscribed {} es"
  by (rule lifecycle_run) (simp_all add: init_store_def)

lemma distinct_count_le: "distinct xs \<Longrightarrow> count_list xs x \<le> 1"
  by (induction xs) (auto simp: count_list_0_iff)

lemma cleanup_eq: "useToast_cleanup l s = s\<lparr>listeners := remove1 l (listeners s)\<rparr>"
  by (simp add: useToast_cleanup_def remove1_idem)

lemma dispatch_invokes:
  "l \<in> set (listeners s) \<Longrightarrow>
     (l, memoryState (dispatch a s)) \<in> set (drop (length (calls s)) (calls (dispatch a s)))"
  by (simp add: dispatch_calls dispatch_memoryState)

lemma cleanup_calls: "calls (useToast_cleanup l s) = calls s"
  by (simp add: useToast_cleanup_def)

lemma cleanup_keeps_others:
  "l' \<noteq> l \<Longrightarrow> l' \<in> set (listeners s) \<Longrightarrow> l' \<in> set (listeners (useToast_cleanup l s))"
  by (simp add: cleanup_listeners)

subsection \<open>The open property\<close>

lemma is_open_dismissed: "\<not> is_open (dismissed t)"
  by (simp add: is_open_def dismissed_def)

lemma is_open_merge:
  "is_open (merge t p) \<longleftrightarrow>
     (case partial_props p ''open'' of None \<Rightarrow> is_open t | Some v \<Rightarrow> v = JBool True)"
  by (simp add: is_open_def merge_def map_add_def split: option.splits)

lemma id_merge: "Some (id' t) = partial_id p \<Longrightarrow> id' (merge t p) = id' t"
  by (cases "partial_id p") (simp_all add: merge_def)

lemma id_dismissed: "id' (dismissed t) = id' t"
  by (simp add: dismissed_def)

lemma closed_reducer:
  assumes "closed X st" and "\<not> reopens X a"
  shows "closed X (fst (reducer st a s))"
proof (cases a)
  case (ADD_TOAST t)
  then show ?thesis
    using assms by (simp add: closed_def TOAST_LIMIT_def)
next
  case (UPDATE_TOAST p)
  have "\<not> is_open (merge t p)"
    if "t \<in> set (toasts st)" "Some (id' t) = partial_id p" "id' t = X" for t
  proof -
    from that assms(1) have "\<not> is_open t" by (simp add: closed_def)
    moreover from that assms(2) UPDATE_TOAST
    have "partial_props p ''open'' \<noteq> Some (JBool True)" by simp
    ultimately show ?thesis
      by (auto simp: is_open_merge split: option.splits)
  qed
  then show ?thesis
    using assms(1) UPDATE_TOAST by (auto simp: closed_def id_merge)
next
  case (DISMISS_TOAST toastId)
  then show ?thesis
    using assms(1) by (auto simp: closed_def Let_def is_open_dismissed id_dismissed)
next
  case (REMOVE_TOAST toastId)
  then show ?thesis
    using assms(1) by (auto simp: closed_def)
qed

subsection \<open>Evaluation of the first toast\<close>

lemma toast_first:
  "toast Map.empty init_store =
     (''1'', init_store\<lparr>count := 1,
        memoryState := \<lparr>toasts = [\<lparr>id' = ''1'',
           props = [''open'' \<mapsto> JBool True, ''onOpenChange'' \<mapsto> OnOpenChange ''1'']\<rparr>]\<rparr>\<rparr>)"
  by (simp add: toast_def genId_def init_store_def MAX_SAFE_INTEGER_def toString.simps
      digit_def dispatch_def TOAST_LIMIT_def)

section \<open>The claims\<close>

subsection \<open>REMOVE by id\<close>

text \<open>
  C1. The claim: REMOVE with \<open>toastId = X\<close> deletes exactly the toast with id \<open>X\<close> and
  keeps the others in order; REMOVE without an id empties the sequence. The source
  filters with \<open>t.id == action.toastId\<close>, which keeps the toast with id \<open>X\<close> and drops all
  others: on the toasts \<open>1, 2\<close>, removing \<open>1\<close> leaves \<open>1\<close>.
\<close>

theorem REMOVE_keeps_the_named_toast:
  "toasts (fst (reducer
       \<lparr>toasts = [\<lparr>id' = ''1'', props = Map.empty\<rparr>, \<lparr>id' = ''2'', props = Map.empty\<rparr>]\<rparr>
       (REMOVE_TOAST (Some ''1'')) init_store))
     = [\<lparr>id' = ''1'', props = Map.empty\<rparr>]"
  by simp

subsection \<open>The callback of a new toast\<close>

text \<open>
  C2. The claim: the \<open>onOpenChange\<close> callback of a toast dispatches DISMISS when called
  with \<open>open = false\<close> and not when called with \<open>open = true\<close>. The source tests
  \<open>if (open) dismiss()\<close>: for the first toast of a fresh store, the callback called with
  \<open>false\<close> leaves the store as it is (the toast stays open, no timer is scheduled), and
  called with \<open>true\<close> it dispatches DISMISS, which closes the toast and schedules its
  removal.
\<close>

theorem onOpenChange_dismisses_when_opened:
  "map (\<lambda>t. props t ''onOpenChange'') (toasts (memoryState (snd (toast Map.empty init_store))))
     = [Some (OnOpenChange ''1'')]
   \<and> call_onOpenChange (OnOpenChange ''1'') False (snd (toast Map.empty init_store))
     = Some (snd (toast Map.empty init_store))
   \<and> map (\<lambda>t. props t ''open'') (toasts (memoryState (snd (toast Map.empty init_store))))
     = [Some (JBool True)]
   \<and> toastTimeouts (snd (toast Map.empty init_store)) ''1'' = None
   \<and> call_onOpenChange (OnOpenChange ''1'') True (snd (toast Map.empty init_store))
     = Some (dispatch (DISMISS_TOAST (Some ''1'')) (snd (toast Map.empty init_store)))
   \<and> toastTimeouts (dispatch (DISMISS_TOAST (Some ''1'')) (snd (toast Map.empty init_store))) ''1''
     = Some 0
   \<and> map (\<lambda>t. props t ''open'')
        (toasts (memoryState (dispatch (DISMISS_TOAST (Some ''1'')) (snd (toast Map.empty init_store)))))
     = [Some (JBool False)]"
  unfolding toast_first
  by (simp add: onOpenChange_def toast_dismiss_def dispatch_def init_store_def
      truthy_def addToRemoveQueue_def setTimeout_def dismissed_def)

subsection \<open>Re-opening\<close>

text \<open>
  C3, as amended. The claim: once a toast has \<open>open = false\<close>, no sequence of actions
  gives a state in which the toast with that id has \<open>open = true\<close>. The reducer merges
  whatever an UPDATE carries and prepends whatever an ADD supplies, so this holds for
  the sequences in which no UPDATE carries \<open>open = true\<close> for that id and no ADD
  supplies an open toast with that id: DISMISS, REMOVE and every other UPDATE and ADD
  keep every toast with id \<open>X\<close> not open.
\<close>

theorem closed_toast_stays_closed:
  "closed X st \<Longrightarrow> \<forall>a \<in> set as. \<not> reopens X a \<Longrightarrow> closed X (fst (reduce_all st as s))"
proof (induction as arbitrary: st s)
  case Nil
  then show ?case by simp
next
  case (Cons a as)
  obtain st' s' where r: "reducer st a s = (st', s')" by (cases "reducer st a s")
  from Cons.prems have "closed X (fst (reducer st a s))"
    by (simp add: closed_reducer)
  with r have "closed X st'" by simp
  with Cons.IH [of st' s'] Cons.prems(2) show ?case
    by (simp add: r)
qed

text \<open>
  A dismissed toast \<open>1\<close> stays closed through an UPDATE of its title and a DISMISS of
  everything.
\<close>

theorem closed_toast_stays_closed_witness:
  "closed ''1'' \<lparr>toasts = [\<lparr>id' = ''1'', props = [''open'' \<mapsto> JBool False]\<rparr>]\<rparr>
   \<and> \<not> reopens ''1'' (UPDATE_TOAST \<lparr>partial_id = Some ''1'', partial_props = [''title'' \<mapsto> Opaque 0]\<rparr>)
   \<and> \<not> reopens ''1'' (DISMISS_TOAST None)
   \<and> closed ''1'' (fst (reduce_all \<lparr>toasts = [\<lparr>id' = ''1'', props = [''open'' \<mapsto> JBool False]\<rparr>]\<rparr>
        [UPDATE_TOAST \<lparr>partial_id = Some ''1'', partial_props = [''title'' \<mapsto> Opaque 0]\<rparr>,
         DISMISS_TOAST None] init_store))"
proof -
  let ?st = "\<lparr>toasts = [\<lparr>id' = ''1'', props = [''open'' \<mapsto> JBool False]\<rparr>]\<rparr>"
  let ?as = "[UPDATE_TOAST \<lparr>partial_id = Some ''1'', partial_props = [''title'' \<mapsto> Opaque 0]\<rparr>,
         DISMISS_TOAST None]"
  have h1: "closed ''1'' ?st" by (simp add: closed_def is_open_def)
  have h2: "\<forall>a \<in> set ?as. \<not> reopens ''1'' a" by simp
  have h3: "\<not> reopens ''1'' (UPDATE_TOAST \<lparr>partial_id = Some ''1'', partial_props = [''title'' \<mapsto> Opaque 0]\<rparr>)"
    "\<not> reopens ''1'' (DISMISS_TOAST None)"
    by simp_all
  from closed_toast_stays_closed [OF h1 h2, of init_store] h1 h3 show ?thesis by blast
qed

text \<open>
  The claim as stated fails: an UPDATE that carries \<open>open = true\<close> for the id of a
  dismissed toast sets its \<open>open\<close> back to \<open>true\<close>.
\<close>

theorem UPDATE_reopens_counterexample:
  "fst (reducer \<lparr>toasts = [\<lparr>id' = ''1'', props = [''open'' \<mapsto> JBool False]\<rparr>]\<rparr>
     (UPDATE_TOAST \<lparr>partial_id = Some ''1'', partial_props = [''open'' \<mapsto> JBool True]\<rparr>)
     init_store)
   = \<lparr>toasts = [\<lparr>id' = ''1'', props = [''open'' \<mapsto> JBool True]\<rparr>]\<rparr>"
  by (simp add: merge_def)

subsection \<open>REMOVE of an absent id\<close>

text \<open>
  C4. The claim: REMOVE for an id that no toast has leaves the state unchanged. By the
  filter of the source, which keeps the toasts whose id equals the given one, REMOVE
  for the absent id \<open>1\<close> empties a state that holds the toast \<open>2\<close>.
\<close>

theorem REMOVE_of_absent_id_drops_the_others:
  "fst (reducer \<lparr>toasts = [\<lparr>id' = ''2'', props = Map.empty\<rparr>]\<rparr>
          (REMOVE_TOAST (Some ''1'')) init_store)
     = \<lparr>toasts = []\<rparr>"
  by simp

subsection \<open>ADD\<close>

text \<open>
  C5. After every ADD the sequence holds at most \<open>TOAST_LIMIT = 1\<close> toasts and its head
  is the toast just added: after one ADD on any state, and after any sequence of ADDs
  that ends with the toast \<open>t\<close>, the sequence is exactly \<open>[t]\<close>.
\<close>

theorem ADD_TOAST_keeps_newest:
  "toasts (fst (reducer st (ADD_TOAST t) s)) = [t]
   \<and> toasts (fst (reduce_all st (map ADD_TOAST (ts @ [t])) s)) = [t]
   \<and> length (toasts (fst (reduce_all st (map ADD_TOAST (ts @ [t])) s))) \<le> TOAST_LIMIT
   \<and> TOAST_LIMIT = 1"
  by (simp add: reduce_all_snoc TOAST_LIMIT_def split: prod.splits)

theorem ADD_TOAST_keeps_newest_witness:
  "toasts (fst (reduce_all \<lparr>toasts = []\<rparr>
       (map ADD_TOAST ([\<lparr>id' = ''1'', props = Map.empty\<rparr>] @ [\<lparr>id' = ''2'', props = Map.empty\<rparr>]))
       init_store))
     = [\<lparr>id' = ''2'', props = Map.empty\<rparr>]"
  using ADD_TOAST_keeps_newest [of "\<lparr>toasts = []\<rparr>" "\<lparr>id' = ''2'', props = Map.empty\<rparr>" init_store
      "[\<lparr>id' = ''1'', props = Map.empty\<rparr>]"]
  by blast

subsection \<open>DISMISS without an id\<close>

text \<open>
  C6. DISMISS with \<open>toastId\<close> omitted sets \<open>open = false\<close> on every toast of the state and
  changes nothing else in them; afterwards \<open>toastTimeouts\<close> has an entry for the id of
  each of these toasts, and its entries for all other ids are as before. When the
  scheduler was consistent, each of these ids has exactly one pending timer.
\<close>

theorem DISMISS_without_id:
  "fst (reducer st (DISMISS_TOAST None) s)
     = st\<lparr>toasts := map (\<lambda>t. t\<lparr>props := (props t)(''open'' \<mapsto> JBool False)\<rparr>) (toasts st)\<rparr>
   \<and> (\<forall>t \<in> set (toasts st). toastTimeouts (snd (reducer st (DISMISS_TOAST None) s)) (id' t) \<noteq> None)
   \<and> (\<forall>i. i \<notin> id' ` set (toasts st) \<longrightarrow>
         toastTimeouts (snd (reducer st (DISMISS_TOAST None) s)) i = toastTimeouts s i)
   \<and> (sched_ok s \<longrightarrow>
         (\<forall>t \<in> set (toasts st). timers_for (id' t) (snd (reducer st (DISMISS_TOAST None) s)) = 1))"
proof -
  let ?s' = "fold (\<lambda>t. addToRemoveQueue (id' t)) (toasts st) s"
  have snd_eq: "snd (reducer st (DISMISS_TOAST None) s) = ?s'"
    by (simp add: truthy_def)
  have fst_eq: "fst (reducer st (DISMISS_TOAST None) s)
     = st\<lparr>toasts := map (\<lambda>t. t\<lparr>props := (props t)(''open'' \<mapsto> JBool False)\<rparr>) (toasts st)\<rparr>"
    by (simp add: truthy_def dismissed_def Let_def)
  have tracked: "toastTimeouts ?s' (id' t) \<noteq> None" if "t \<in> set (toasts st)" for t
    using that by (simp add: fold_addToRemoveQueue_tracked)
  have other: "toastTimeouts ?s' i = toastTimeouts s i" if "i \<notin> id' ` set (toasts st)" for i
    using that by (rule fold_addToRemoveQueue_other)
  have one: "timers_for (id' t) ?s' = 1" if "sched_ok s" "t \<in> set (toasts st)" for t
    using sched_ok_fold_addToRemoveQueue [OF that(1)] tracked [OF that(2)]
    by (rule sched_ok_tracked)
  show ?thesis
    unfolding snd_eq using fst_eq tracked other one by blast
qed

theorem DISMISS_without_id_witness:
  "sched_ok init_store
   \<and> timers_for ''1'' (snd (reducer \<lparr>toasts = [\<lparr>id' = ''1'', props = Map.empty\<rparr>]\<rparr>
        (DISMISS_TOAST None) init_store)) = 1
   \<and> toastTimeouts (snd (reducer \<lparr>toasts = [\<lparr>id' = ''1'', props = Map.empty\<rparr>]\<rparr>
        (DISMISS_TOAST None) init_store)) ''1'' \<noteq> None
   \<and> toastTimeouts (snd (reducer \<lparr>toasts = [\<lparr>id' = ''1'', props = Map.empty\<rparr>]\<rparr>
        (DISMISS_TOAST None) init_store)) ''2'' = None"
proof -
  have ok: "sched_ok init_store" by (rule sched_ok_init)
  have none: "toastTimeouts init_store ''2'' = None" by (simp add: init_store_def)
  show ?thesis
    using DISMISS_without_id [of "\<lparr>toasts = [\<lparr>id' = ''1'', props = Map.empty\<rparr>]\<rparr>" init_store]
      ok none
    by simp
qed

subsection \<open>Scheduling a removal twice\<close>

text \<open>
  C7. Scheduling a removal is idempotent: \<open>addToRemoveQueue\<close> for an id that already has
  a pending timer leaves the store as it is, so calling it twice is calling it once.
  In every store reached from the initial one, an id has at most one pending timer.
  Two calls in a row of the \<open>dismiss\<close> closure of a toast create no second timer: the
  host's timers and \<open>toastTimeouts\<close> after the second call are those after the first,
  with one entry and one timer for the id. The ids that \<open>toast\<close> hands out are never
  empty, so this covers every such closure.
\<close>

theorem removal_scheduling_idempotent:
  "(toastTimeouts s i \<noteq> None \<longrightarrow> addToRemoveQueue i s = s)
   \<and> addToRemoveQueue i (addToRemoveQueue i s) = addToRemoveQueue i s
   \<and> timers_for i (run es init_store) \<le> 1
   \<and> (i \<noteq> [] \<longrightarrow>
        timers (toast_dismiss i (toast_dismiss i (run es init_store)))
          = timers (toast_dismiss i (run es init_store))
        \<and> toastTimeouts (toast_dismiss i (toast_dismiss i (run es init_store)))
          = toastTimeouts (toast_dismiss i (run es init_store))
        \<and> toastTimeouts (toast_dismiss i (toast_dismiss i (run es init_store))) i \<noteq> None
        \<and> timers_for i (toast_dismiss i (toast_dismiss i (run es init_store))) = 1)
   \<and> fst (toast p s) \<noteq> []"
proof -
  define r where "r = run es init_store"
  have pending: "toastTimeouts (addToRemoveQueue i s') i \<noteq> None" for s'
    by (simp add: addToRemoveQueue_tracked)
  have idem: "addToRemoveQueue i (addToRemoveQueue i s') = addToRemoveQueue i s'" for s'
    using pending [of s'] by (rule addToRemoveQueue_pending)
  have ok: "sched_ok r"
    unfolding r_def by (rule sched_ok_run)
  have twice: "timers (toast_dismiss i (toast_dismiss i r)) = timers (toast_dismiss i r)
        \<and> toastTimeouts (toast_dismiss i (toast_dismiss i r)) = toastTimeouts (toast_dismiss i r)
        \<and> toastTimeouts (toast_dismiss i (toast_dismiss i r)) i \<noteq> None
        \<and> timers_for i (toast_dismiss i (toast_dismiss i r)) = 1"
    if ne: "i \<noteq> []"
  proof -
    let ?s1 = "toast_dismiss i r"
    have tracked1: "toastTimeouts ?s1 i \<noteq> None"
      using pending [of r] by (simp add: dismiss_sched [OF ne])
    then have noop: "addToRemoveQueue i ?s1 = ?s1"
      by (rule addToRemoveQueue_pending)
    have t: "timers (toast_dismiss i ?s1) = timers ?s1"
      and m: "toastTimeouts (toast_dismiss i ?s1) = toastTimeouts ?s1"
      by (simp_all add: dismiss_sched [OF ne] noop)
    have "sched_ok ?s1"
      using ok by (simp add: toast_dismiss_def sched_ok_dispatch)
    then have "timers_for i ?s1 = 1"
      using tracked1 by (rule sched_ok_tracked)
    then have "timers_for i (toast_dismiss i ?s1) = 1"
      by (simp add: timers_for_def t)
    with t m tracked1 show ?thesis by simp
  qed
  have noop: "toastTimeouts s i \<noteq> None \<longrightarrow> addToRemoveQueue i s = s"
    using addToRemoveQueue_pending [of s i] by blast
  show ?thesis
    unfolding r_def [symmetric]
    using noop idem [of s] sched_ok_le [OF ok, of i] twice toast_id_nonempty [of p s]
    by blast
qed

theorem removal_scheduling_idempotent_witness:
  "toastTimeouts (addToRemoveQueue ''1'' init_store) ''1'' \<noteq> None
   \<and> addToRemoveQueue ''1'' (addToRemoveQueue ''1'' init_store) = addToRemoveQueue ''1'' init_store
   \<and> ''1'' \<noteq> []
   \<and> timers_for ''1'' (toast_dismiss ''1'' (toast_dismiss ''1'' (run [CallToast Map.empty] init_store))) = 1"
proof -
  have h: "toastTimeouts (addToRemoveQueue ''1'' init_store) ''1'' \<noteq> None"
    by (simp add: addToRemoveQueue_def setTimeout_def init_store_def)
  show ?thesis
    using removal_scheduling_idempotent
      [of "addToRemoveQueue ''1'' init_store" "''1''" "[CallToast Map.empty]" Map.empty] h
    by simp
qed

subsection \<open>UPDATE\<close>

text \<open>
  C8. UPDATE with \<open>{id: X, ...partial}\<close> on a state in which no toast has id \<open>X\<close> returns
  the state unchanged and leaves the store alone; in general it merges the partial
  properties into every toast with id \<open>X\<close> and keeps all other toasts as they are.
\<close>

theorem UPDATE_TOAST_merges:
  "((\<forall>t \<in> set (toasts st). id' t \<noteq> X) \<longrightarrow>
      reducer st (UPDATE_TOAST \<lparr>partial_id = Some X, partial_props = p\<rparr>) s = (st, s))
   \<and> reducer st (UPDATE_TOAST \<lparr>partial_id = Some X, partial_props = p\<rparr>) s
       = (st\<lparr>toasts := map (\<lambda>t. if id' t = X then t\<lparr>props := props t ++ p\<rparr> else t) (toasts st)\<rparr>, s)"
proof -
  have eq: "reducer st (UPDATE_TOAST \<lparr>partial_id = Some X, partial_props = p\<rparr>) s
       = (st\<lparr>toasts := map (\<lambda>t. if id' t = X then t\<lparr>props := props t ++ p\<rparr> else t) (toasts st)\<rparr>, s)"
    by (auto simp: merge_def intro!: arg_cong [where f = "\<lambda>x. st\<lparr>toasts := x\<rparr>"])
  have "map (\<lambda>t. if id' t = X then t\<lparr>props := props t ++ p\<rparr> else t) (toasts st) = toasts st"
    if "\<forall>t \<in> set (toasts st). id' t \<noteq> X"
    using that by (simp add: map_idI)
  with eq show ?thesis by simp
qed

theorem UPDATE_TOAST_merges_witness:
  "''2'' \<notin> id' ` set (toasts \<lparr>toasts = [\<lparr>id' = ''1'', props = Map.empty\<rparr>]\<rparr>)
   \<and> reducer \<lparr>toasts = [\<lparr>id' = ''1'', props = Map.empty\<rparr>]\<rparr>
        (UPDATE_TOAST \<lparr>partial_id = Some ''2'', partial_props = [''title'' \<mapsto> Opaque 0]\<rparr>) init_store
      = (\<lparr>toasts = [\<lparr>id' = ''1'', props = Map.empty\<rparr>]\<rparr>, init_store)"
proof -
  have h: "\<forall>t \<in> set (toasts \<lparr>toasts = [\<lparr>id' = ''1'', props = Map.empty\<rparr>]\<rparr>). id' t \<noteq> ''2''"
    by simp
  show ?thesis
    using UPDATE_TOAST_merges [of "\<lparr>toasts = [\<lparr>id' = ''1'', props = Map.empty\<rparr>]\<rparr>" "''2''"
        "[''title'' \<mapsto> Opaque 0]" init_store] h
    by auto
qed

subsection \<open>Dispatch and the listeners\<close>

text \<open>
  C9. \<open>dispatch\<close> stores the state that the reducer returns and then calls every
  registered listener with it, in registration order, leaving the registry as it is;
  so a listener registered at the time of a dispatch is called with the state that
  dispatch produced. The effect of \<open>useToast\<close> appends its listener to the registry and
  changes nothing else; the cleanup removes the first occurrence of its listener and
  nothing else, so every other listener stays registered and is still called by the
  next dispatch, and the cleanup of a listener that is not registered changes nothing.
  In every store reached from the initial one by events that respect the discipline of
  the effect, the registry holds no listener twice and holds exactly the subscribed
  listeners; after the cleanup of a listener there, the listener is out of the
  registry and no later dispatch calls it: its number of invocations stays the same
  through any list of dispatches and through any further events in which its effect
  does not run again.
\<close>

theorem dispatch_notifies_listeners:
  "memoryState (dispatch a s) = fst (reducer (memoryState s) a s)
   \<and> calls (dispatch a s) = calls s @ map (\<lambda>listener. (listener, memoryState (dispatch a s))) (listeners s)
   \<and> listeners (dispatch a s) = listeners s
   \<and> (l \<in> set (listeners s) \<longrightarrow>
        (l, memoryState (dispatch a s)) \<in> set (drop (length (calls s)) (calls (dispatch a s))))
   \<and> useToast_effect l s = s\<lparr>listeners := listeners s @ [l]\<rparr>
   \<and> useToast_cleanup l s = s\<lparr>listeners := remove1 l (listeners s)\<rparr>
   \<and> (l \<notin> set (listeners s) \<longrightarrow> useToast_cleanup l s = s)
   \<and> (l' \<noteq> l \<and> l' \<in> set (listeners s) \<longrightarrow>
        (l', memoryState (dispatch a (useToast_cleanup l s)))
          \<in> set (drop (length (calls s)) (calls (dispatch a (useToast_cleanup l s)))))
   \<and> (lifecycle {} es \<longrightarrow>
        distinct (listeners (run es init_store))
        \<and> set (listeners (run es init_store)) = subscribed {} es
        \<and> l \<notin> set (listeners (useToast_cleanup l (run es init_store)))
        \<and> invocations l (dispatch_all as (useToast_cleanup l (run es init_store)))
            = invocations l (run es init_store)
        \<and> (EffectRuns l \<notin> set es' \<longrightarrow>
              invocations l (run es' (useToast_cleanup l (run es init_store)))
                = invocations l (run es init_store)))"
proof -
  have calls_eq: "calls (dispatch a s) =
      calls s @ map (\<lambda>listener. (listener, memoryState (dispatch a s))) (listeners s)"
    by (simp add: dispatch_calls dispatch_memoryState)
  have invoked: "(l, memoryState (dispatch a s)) \<in> set (drop (length (calls s)) (calls (dispatch a s)))"
    if "l \<in> set (listeners s)"
    using that by (rule dispatch_invokes)
  have effect: "useToast_effect l s = s\<lparr>listeners := listeners s @ [l]\<rparr>"
    by (simp add: useToast_effect_def)
  have noop: "useToast_cleanup l s = s" if "l \<notin> set (listeners s)"
    using that by (simp add: useToast_cleanup_def)
  have others: "(l', memoryState (dispatch a (useToast_cleanup l s)))
          \<in> set (drop (length (calls s)) (calls (dispatch a (useToast_cleanup l s))))"
    if "l' \<noteq> l \<and> l' \<in> set (listeners s)"
    using dispatch_invokes [of l' "useToast_cleanup l s" a] that
    by (simp add: cleanup_keeps_others cleanup_calls)
  have reach: "distinct (listeners (run es init_store))
        \<and> set (listeners (run es init_store)) = subscribed {} es
        \<and> l \<notin> set (listeners (useToast_cleanup l (run es init_store)))
        \<and> invocations l (dispatch_all as (useToast_cleanup l (run es init_store)))
            = invocations l (run es init_store)
        \<and> (EffectRuns l \<notin> set es' \<longrightarrow>
              invocations l (run es' (useToast_cleanup l (run es init_store)))
                = invocations l (run es init_store))"
    if lc: "lifecycle {} es"
  proof -
    let ?r = "run es init_store"
    from lifecycle_reachable [OF lc]
    have d: "distinct (listeners ?r)" and m: "set (listeners ?r) = subscribed {} es"
      by simp_all
    from d have once: "count_list (listeners ?r) l \<le> 1" by (rule distinct_count_le)
    have gone: "l \<notin> set (listeners (useToast_cleanup l ?r))"
      using once by (rule cleanup_unregisters)
    have later: "invocations l (dispatch_all as (useToast_cleanup l ?r)) = invocations l ?r"
      using invocations_dispatch_all [OF gone] by (simp add: cleanup_invocations)
    have later_run: "invocations l (run es' (useToast_cleanup l ?r)) = invocations l ?r"
      if "EffectRuns l \<notin> set es'"
      using invocations_run [OF that gone] by (simp add: cleanup_invocations)
    from d m gone later later_run show ?thesis by blast
  qed
  show ?thesis
    using calls_eq invoked effect cleanup_eq [of l s] noop others reach
      dispatch_memoryState [of a s] dispatch_listeners [of a s]
    by blast
qed

theorem dispatch_notifies_listeners_witness:
  "lifecycle {} [EffectRuns 7, EffectRuns 8]
   \<and> listeners (run [EffectRuns 7, EffectRuns 8] init_store) = [7, 8]
   \<and> (7, memoryState (dispatch (REMOVE_TOAST None) (run [EffectRuns 7, EffectRuns 8] init_store)))
        \<in> set (drop (length (calls (run [EffectRuns 7, EffectRuns 8] init_store)))
             (calls (dispatch (REMOVE_TOAST None) (run [EffectRuns 7, EffectRuns 8] init_store))))
   \<and> listeners (useToast_cleanup 7 (run [EffectRuns 7, EffectRuns 8] init_store)) = [8]
   \<and> (8, memoryState (dispatch (REMOVE_TOAST None)
            (useToast_cleanup 7 (run [EffectRuns 7, EffectRuns 8] init_store))))
        \<in> set (drop (length (calls (run [EffectRuns 7, EffectRuns 8] init_store)))
             (calls (dispatch (REMOVE_TOAST None)
               (useToast_cleanup 7 (run [EffectRuns 7, EffectRuns 8] init_store)))))
   \<and> EffectRuns 7 \<notin> set [CallToast Map.empty, CallDismiss None, TimerFires 0]
   \<and> invocations 7 (run [EffectRuns 7, EffectRuns 8] init_store) = 0
   \<and> invocations 7 (run [CallToast Map.empty, CallDismiss None, TimerFires 0]
        (useToast_cleanup 7 (run [EffectRuns 7, EffectRuns 8] init_store)))
       = invocations 7 (run [EffectRuns 7, EffectRuns 8] init_store)
   \<and> invocations 7 (dispatch_all [REMOVE_TOAST None]
        (useToast_cleanup 7 (run [EffectRuns 7, EffectRuns 8] init_store)))
       = invocations 7 (run [EffectRuns 7, EffectRuns 8] init_store)
   \<and> 9 \<notin> set (listeners (run [EffectRuns 7, EffectRuns 8] init_store))
   \<and> useToast_cleanup 9 (run [EffectRuns 7, EffectRuns 8] init_store)
       = run [EffectRuns 7, EffectRuns 8] init_store"
proof -
  let ?es = "[EffectRuns 7, EffectRuns 8]"
  let ?es' = "[CallToast Map.empty, CallDismiss None, TimerFires 0]"
  let ?r = "run ?es init_store"
  have r: "?r = init_store\<lparr>listeners := [7, 8]\<rparr>"
    by (simp add: run_def useToast_effect_def init_store_def)
  have h0: "lifecycle {} ?es" by simp
  have h1: "listeners ?r = [7, 8]" by (simp add: r)
  have h3: "7 \<in> set (listeners ?r)" "(8::nat) \<noteq> 7 \<and> 8 \<in> set (listeners ?r)"
    "9 \<notin> set (listeners ?r)"
    by (simp_all add: h1)
  have h4: "EffectRuns 7 \<notin> set ?es'" by simp
  have z: "invocations 7 ?r = 0"
    unfolding r by (simp add: invocations_def init_store_def)
  note at7 = dispatch_notifies_listeners [of "REMOVE_TOAST None" ?r 7 8 ?es "[REMOVE_TOAST None]" ?es']
  note at9 = dispatch_notifies_listeners [of "REMOVE_TOAST None" ?r 9 8 "[]" "[]" "[]"]
  have c: "listeners (useToast_cleanup 7 ?r) = [8]"
    using at7 by (simp add: h1)
  have w7: "(7, memoryState (dispatch (REMOVE_TOAST None) ?r))
        \<in> set (drop (length (calls ?r)) (calls (dispatch (REMOVE_TOAST None) ?r)))"
    using at7 h3(1) by blast
  have w8: "(8, memoryState (dispatch (REMOVE_TOAST None) (useToast_cleanup 7 ?r)))
        \<in> set (drop (length (calls ?r)) (calls (dispatch (REMOVE_TOAST None) (useToast_cleanup 7 ?r))))"
    using at7 h3(2) by blast
  have later: "invocations 7 (run ?es' (useToast_cleanup 7 ?r)) = invocations 7 ?r"
    "invocations 7 (dispatch_all [REMOVE_TOAST None] (useToast_cleanup 7 ?r)) = invocations 7 ?r"
    using at7 h0 h4 by blast+
  have noop: "useToast_cleanup 9 ?r = ?r"
    using at9 h3(3) by blast
  from h0 h1 w7 c w8 h4 z later h3(3) noop show ?thesis
    by (intro conjI)
qed

subsection \<open>DISMISS of an unknown id\<close>

text \<open>
  C10, as amended. The claim: DISMISS with a \<open>toastId\<close> that no toast has leaves the
  toasts as they are and still puts an entry for that id into \<open>toastTimeouts\<close>. The
  source guards the scheduling with \<open>if (toastId)\<close>, so this holds for every non-empty
  id: the state is returned unchanged, the store is that of \<open>addToRemoveQueue\<close> for the
  id, which tracks the id afterwards, with a new timer when it was not tracked before.
\<close>

theorem DISMISS_of_unknown_id:
  assumes "x \<noteq> []" and "\<forall>t \<in> set (toasts st). id' t \<noteq> x"
  shows "fst (reducer st (DISMISS_TOAST (Some x)) s) = st
     \<and> snd (reducer st (DISMISS_TOAST (Some x)) s) = addToRemoveQueue x s
     \<and> toastTimeouts (snd (reducer st (DISMISS_TOAST (Some x)) s)) x \<noteq> None
     \<and> (toastTimeouts s x = None \<longrightarrow>
          timers (snd (reducer st (DISMISS_TOAST (Some x)) s)) = timers s @ [(next_timer s, x)]
          \<and> toastTimeouts (snd (reducer st (DISMISS_TOAST (Some x)) s)) x = Some (next_timer s))"
proof -
  have "map (\<lambda>t. if id' t = x then dismissed t else t) (toasts st) = toasts st"
    using assms(2) by (simp add: map_idI)
  then have "fst (reducer st (DISMISS_TOAST (Some x)) s) = st"
    by (simp add: Let_def)
  moreover have "snd (reducer st (DISMISS_TOAST (Some x)) s) = addToRemoveQueue x s"
    using assms(1) by (simp add: truthy_def)
  ultimately show ?thesis
    by (simp add: addToRemoveQueue_tracked addToRemoveQueue_new)
qed

theorem DISMISS_of_unknown_id_witness:
  "''9'' \<noteq> []
   \<and> ''9'' \<notin> id' ` set (toasts \<lparr>toasts = [\<lparr>id' = ''1'', props = Map.empty\<rparr>]\<rparr>)
   \<and> toastTimeouts init_store ''9'' = None
   \<and> fst (reducer \<lparr>toasts = [\<lparr>id' = ''1'', props = Map.empty\<rparr>]\<rparr> (DISMISS_TOAST (Some ''9'')) init_store)
       = \<lparr>toasts = [\<lparr>id' = ''1'', props = Map.empty\<rparr>]\<rparr>
   \<and> toastTimeouts (snd (reducer \<lparr>toasts = [\<lparr>id' = ''1'', props = Map.empty\<rparr>]\<rparr>
        (DISMISS_TOAST (Some ''9'')) init_store)) ''9'' \<noteq> None
   \<and> timers (snd (reducer \<lparr>toasts = [\<lparr>id' = ''1'', props = Map.empty\<rparr>]\<rparr>
        (DISMISS_TOAST (Some ''9'')) init_store)) = timers init_store @ [(next_timer init_store, ''9'')]"
proof -
  have h1: "''9'' \<noteq> []" by simp
  have h2: "\<forall>t \<in> set (toasts \<lparr>toasts = [\<lparr>id' = ''1'', props = Map.empty\<rparr>]\<rparr>). id' t \<noteq> ''9''"
    by simp
  have h3: "toastTimeouts init_store ''9'' = None" by (simp add: init_store_def)
  show ?thesis
    using DISMISS_of_unknown_id [OF h1 h2, of init_store] h1 h3 by auto
qed

text \<open>
  The claim as stated fails for the empty id: DISMISS with \<open>toastId = ""\<close> on a state
  whose only toast has id \<open>1\<close> leaves the toasts as they are, puts no entry for \<open>""\<close>
  into \<open>toastTimeouts\<close>, and schedules the removal of the toast \<open>1\<close> instead.
\<close>

theorem DISMISS_of_empty_id_counterexample:
  "toasts (fst (reducer \<lparr>toasts = [\<lparr>id' = ''1'', props = Map.empty\<rparr>]\<rparr> (DISMISS_TOAST (Some '''')) init_store))
     = [\<lparr>id' = ''1'', props = Map.empty\<rparr>]
   \<and> toastTimeouts (snd (reducer \<lparr>toasts = [\<lparr>id' = ''1'', props = Map.empty\<rparr>]\<rparr>
          (DISMISS_TOAST (Some '''')) init_store)) '''' = None
   \<and> toastTimeouts (snd (reducer \<lparr>toasts = [\<lparr>id' = ''1'', props = Map.empty\<rparr>]\<rparr>
          (DISMISS_TOAST (Some '''')) init_store)) ''1'' = Some 0"
  by (simp add: truthy_def addToRemoveQueue_def setTimeout_def init_store_def)

end
